theory Spec2Isabelle
  imports Complex_Main
begin

section \<open>Tabular reinforcement learning on a gym environment\<close>

text \<open>
  The notebook \<^verbatim>\<open>CodeExamples/10_rl_basics.ipynb\<close> holds five functions:
  \<^verbatim>\<open>evaluate_policy\<close>, \<^verbatim>\<open>value_iteration\<close>, \<^verbatim>\<open>extract_policy\<close>,
  \<^verbatim>\<open>choose_action\<close> and \<^verbatim>\<open>q_learning\<close>. Four blocks of them are left as
  \<^verbatim>\<open>## TODO\<close> comments; the embedding below follows the functions as they stand,
  a block of comments being no statement at all. That reading is open where statements
  stand beside the block; the loop of \<^verbatim>\<open>extract_policy\<close> has no other body, Python
  refuses its \<^verbatim>\<open>def\<close>, and the function is not embedded.

  Numbers: a float64 value is modelled as the \<^typ>\<open>real\<close> it denotes. The functions
  that are complete do one kind of float arithmetic, the running sum
  \<^verbatim>\<open>total_reward += reward\<close>, and float64 addition rounds: where a loop can reach that
  sum, the addition and the initial \<^verbatim>\<open>0\<close> are parameters \<open>fadd\<close> and \<open>fzero\<close> of
  which nothing is assumed, and the totals have a type of their own. In \<open>q_steps\<close>,
  the inner loop of \<^verbatim>\<open>q_learning\<close> as it stands, \<^verbatim>\<open>choose_action\<close> raises before
  the sum is reached, and the sum is written \<open>+\<close>. The tables hold zeros only, and
  \<^verbatim>\<open>0 < 1e-30\<close> is a comparison. States and actions are the
  non-negative indices of gym's \<^verbatim>\<open>Discrete\<close> spaces.
\<close>

subsection \<open>Data\<close>

text \<open>
  The exceptions the functions can raise, and the specification's
  \<^verbatim>\<open>ConfigurationError\<close>, which no statement of the code raises.
\<close>

datatype error = NameError | IndexError | ValueError | ConfigurationError

text \<open>An entry of \<^verbatim>\<open>env.unwrapped.P[s][a]\<close>: (probability, next state, reward, done).\<close>

type_synonym transition = "real \<times> nat \<times> real \<times> bool"

text \<open>
  The gym environment object. Its mutable part (position, step counter, random
  generator) is a value of type \<^typ>\<open>'e\<close> that \<^verbatim>\<open>reset\<close>, \<^verbatim>\<open>step\<close> and
  \<^verbatim>\<open>render\<close> take and return; the spaces and the transition table are fixed.
\<close>

record 'e gym_env =
  observation_n :: nat
  action_n :: nat
  env_P :: "nat \<Rightarrow> nat \<Rightarrow> transition list"
  env_reset :: "'e \<Rightarrow> nat \<times> 'e"
  env_step :: "'e \<Rightarrow> nat \<Rightarrow> (nat \<times> real \<times> bool) \<times> 'e"
  env_render :: "'e \<Rightarrow> 'e"

text \<open>
  What the functions print: \<^verbatim>\<open>'Value-iteration converged at iteration# %d.'\<close> and
  \<^verbatim>\<open>'Iteration #%d -- Total reward = %g'\<close>, the latter with the mean of a list that
  may be empty (numpy then gives nan, here \<open>None\<close>).
\<close>

datatype message = VI_converged nat | QL_progress nat "real option"

subsection \<open>\<^verbatim>\<open>value_iteration\<close>\<close>

text \<open>
  \<^verbatim>\<open>
  def value_iteration(env, gamma = 1.0):
      v = np.zeros(env.observation_space.n)  # initialize value-function
      max_iterations = 100000
      eps = 1e-30
      for i in range(max_iterations):
          delta = 0
          ## TODO: iteratively update the value estimate
          if (delta < eps):
              print ('Value-iteration converged at iteration# %d.' %(i+1))
              break
      return v
  \<close>
  The local \<^verbatim>\<open>delta\<close> is unbound before the first pass of the loop (\<open>None\<close>).
\<close>

definition max_iterations :: nat where
  "max_iterations = 100000"

definition vi_eps :: real where
  "vi_eps = 1 / 10 ^ 30"

record vi_state =
  vi_v :: "real list"
  vi_delta :: "real option"
  vi_out :: "message list"

function vi_loop :: "nat \<Rightarrow> vi_state \<Rightarrow> vi_state" where
  "vi_loop i st =
     (if i < max_iterations then
        (let delta = (0::real) in
         if delta < vi_eps
         then st\<lparr>vi_delta := Some delta, vi_out := vi_out st @ [VI_converged (i + 1)]\<rparr>
         else vi_loop (i + 1) (st\<lparr>vi_delta := Some delta\<rparr>))
      else st)"
  by pat_completeness auto
termination
  by (relation "measure (\<lambda>(i, st). max_iterations - i)") auto

definition value_iteration :: "'e gym_env \<Rightarrow> real \<Rightarrow> vi_state" where
  "value_iteration env gamma =
     vi_loop 0 \<lparr>vi_v = replicate (observation_n env) 0, vi_delta = None, vi_out = []\<rparr>"

subsection \<open>numpy helpers\<close>

text \<open>
  \<^verbatim>\<open>np.argmax\<close> scans a row from the left and keeps the first position of its
  maximum: the candidate is replaced only by a strictly greater entry.
  \<open>first_max_from best bv i xs\<close> continues a scan whose best entry so far is \<open>bv\<close>, at
  position \<open>best\<close>, with \<open>xs\<close> starting at position \<open>i\<close>.
\<close>

fun first_max_from :: "nat \<Rightarrow> real \<Rightarrow> nat \<Rightarrow> real list \<Rightarrow> nat" where
  "first_max_from best bv i [] = best"
| "first_max_from best bv i (x # xs) =
     (if bv < x then first_max_from i x (i + 1) xs else first_max_from best bv (i + 1) xs)"

text \<open>\<^verbatim>\<open>np.argmax(row)\<close>: an empty sequence raises \<^verbatim>\<open>ValueError\<close>.\<close>

definition np_argmax :: "real list \<Rightarrow> error + nat" where
  "np_argmax row = (case row of [] \<Rightarrow> Inl ValueError | x # xs \<Rightarrow> Inr (first_max_from 0 x 1 xs))"

text \<open>
  \<^verbatim>\<open>np.argmax(table, axis=1)\<close> on an array of shape \<open>(length rows, ncols)\<close>: numpy
  raises \<^verbatim>\<open>ValueError\<close> when the reduced axis has length 0, also for a table without
  rows; otherwise every row gives one index.
\<close>

definition np_argmax_axis1 :: "nat \<Rightarrow> real list list \<Rightarrow> error + nat list" where
  "np_argmax_axis1 ncols rows =
     (if ncols = 0 then Inl ValueError
      else Inr (map (\<lambda>row. case np_argmax row of Inl _ \<Rightarrow> 0 | Inr k \<Rightarrow> k) rows))"

text \<open>\<^verbatim>\<open>np.mean(xs[-100:])\<close>: the mean of the last hundred entries, nan on an empty list.\<close>

definition np_mean :: "real list \<Rightarrow> real option" where
  "np_mean xs = (if xs = [] then None else Some (sum_list xs / real (length xs)))"

definition last_100 :: "'a list \<Rightarrow> 'a list" where
  "last_100 xs = drop (length xs - 100) xs"

subsection \<open>\<^verbatim>\<open>choose_action\<close>\<close>

text \<open>
  \<^verbatim>\<open>
  def choose_action(q, eps, num_actions):
      ## TODO: implement epsilon-greedy for action selection
      ## hint: np.random.uniform(0,1) < eps could be the condition for random action
      return action
  \<close>
  The body is the single statement \<^verbatim>\<open>return action\<close>. The name \<^verbatim>\<open>action\<close> is
  not a parameter, is assigned nowhere in the function, and no cell of the notebook binds
  it at module level (the only other \<^verbatim>\<open>action\<close> is a local of \<^verbatim>\<open>q_learning\<close>):
  reading it raises \<^verbatim>\<open>NameError\<close>.
\<close>

definition choose_action :: "real list \<Rightarrow> real \<Rightarrow> nat \<Rightarrow> error + nat" where
  "choose_action q eps num_actions = Inl NameError"

subsection \<open>\<^verbatim>\<open>q_learning\<close>\<close>

text \<open>
  \<^verbatim>\<open>
  def q_learning(env, alpha, gamma, eps, iter_max, t_max):
      q_table = np.zeros((env.observation_space.n, env.action_space.n))
      total_reward_list = []
      for i in range(iter_max):
          total_reward = 0
          s = env.reset()
          for j in range(t_max):
              action = choose_action(q_table[s], eps, env.action_space.n)
              next_s, reward, done, _ = env.step(action)
              total_reward += reward
              ## TODO: update Q table
              s=next_s
              if done:
                  total_reward_list.append(total_reward)
                  break
          if i % 100 == 0:
              print('Iteration #%d -- Total reward = %g' %(i+1, np.mean(total_reward_list[-100:])))
      return np.argmax(q_table, axis=1)
  \<close>
  The state of a run: the Q-table, the reward history, what was printed, and the
  environment. \<^verbatim>\<open>q_table[s]\<close> raises \<^verbatim>\<open>IndexError\<close> for a state beyond the table.
\<close>

record 'e ql_state =
  q_table :: "real list list"
  total_reward_list :: "real list"
  ql_out :: "message list"
  ql_env :: 'e

text \<open>The inner loop, from step \<open>j\<close> on, in state \<open>s\<close> with \<open>total_reward\<close> so far.\<close>

function q_steps ::
  "'e gym_env \<Rightarrow> real \<Rightarrow> real \<Rightarrow> real \<Rightarrow> nat \<Rightarrow> nat \<Rightarrow> nat \<Rightarrow> real \<Rightarrow> 'e ql_state
     \<Rightarrow> error + 'e ql_state" where
  "q_steps env alpha gamma eps t_max j s total_reward st =
     (if j < t_max then
        (if s < length (q_table st) then
           (case choose_action (q_table st ! s) eps (action_n env) of
              Inl err \<Rightarrow> Inl err
            | Inr action \<Rightarrow>
                (case env_step env (ql_env st) action of
                   ((next_s, reward, done), e') \<Rightarrow>
                     if done
                     then Inr (st\<lparr>ql_env := e',
                            total_reward_list := total_reward_list st @ [total_reward + reward]\<rparr>)
                     else q_steps env alpha gamma eps t_max (j + 1) next_s
                            (total_reward + reward) (st\<lparr>ql_env := e'\<rparr>)))
         else Inl IndexError)
      else Inr st)"
  by pat_completeness auto
termination
  by (relation "measure (\<lambda>(env, alpha, gamma, eps, t_max, j, s, total_reward, st). t_max - j)")
    auto

text \<open>The outer loop, from episode \<open>i\<close> on.\<close>

function q_episodes ::
  "'e gym_env \<Rightarrow> real \<Rightarrow> real \<Rightarrow> real \<Rightarrow> nat \<Rightarrow> nat \<Rightarrow> nat \<Rightarrow> 'e ql_state
     \<Rightarrow> error + 'e ql_state" where
  "q_episodes env alpha gamma eps iter_max t_max i st =
     (if i < iter_max then
        (case env_reset env (ql_env st) of
           (s, e1) \<Rightarrow>
             (case q_steps env alpha gamma eps t_max 0 s 0 (st\<lparr>ql_env := e1\<rparr>) of
                Inl err \<Rightarrow> Inl err
              | Inr st' \<Rightarrow>
                  q_episodes env alpha gamma eps iter_max t_max (i + 1)
                    (if i mod 100 = 0
                     then st'\<lparr>ql_out := ql_out st' @
                            [QL_progress (i + 1) (np_mean (last_100 (total_reward_list st')))]\<rparr>
                     else st')))
      else Inr st)"
  by pat_completeness auto
termination
  by (relation "measure (\<lambda>(env, alpha, gamma, eps, iter_max, t_max, i, st). iter_max - i)")
    auto

text \<open>The run up to the \<^verbatim>\<open>return\<close>: both loops, from the zero table and the empty history.\<close>

definition q_learning_run ::
  "'e gym_env \<Rightarrow> 'e \<Rightarrow> real \<Rightarrow> real \<Rightarrow> real \<Rightarrow> nat \<Rightarrow> nat \<Rightarrow> error + 'e ql_state" where
  "q_learning_run env e alpha gamma eps iter_max t_max =
     q_episodes env alpha gamma eps iter_max t_max 0
       \<lparr>q_table = replicate (observation_n env) (replicate (action_n env) 0),
        total_reward_list = [], ql_out = [], ql_env = e\<rparr>"

text \<open>What the caller receives: the row-wise argmax of the table, nothing else.\<close>

definition q_learning ::
  "'e gym_env \<Rightarrow> 'e \<Rightarrow> real \<Rightarrow> real \<Rightarrow> real \<Rightarrow> nat \<Rightarrow> nat \<Rightarrow> error + nat list" where
  "q_learning env e alpha gamma eps iter_max t_max =
     (case q_learning_run env e alpha gamma eps iter_max t_max of
        Inl err \<Rightarrow> Inl err
      | Inr st \<Rightarrow> np_argmax_axis1 (action_n env) (q_table st))"

subsection \<open>\<^verbatim>\<open>q_learning\<close> for any action chooser\<close>

text \<open>
  \<^verbatim>\<open>q_learning\<close> looks the name \<^verbatim>\<open>choose_action\<close> up at every call, so its loops
  can be followed for whatever function is bound to that name. A chooser receives the
  arguments of \<^verbatim>\<open>choose_action\<close> and the state of the random generator
  (\<^verbatim>\<open>np.random\<close>), which it returns; it yields an action or raises.
\<close>

type_synonym 'r chooser = "'r \<Rightarrow> real list \<Rightarrow> real \<Rightarrow> nat \<Rightarrow> (error + nat) \<times> 'r"

text \<open>
  The progress line \<^verbatim>\<open>'Iteration #%d -- Total reward = %g' % (i+1, np.mean(xs))\<close>,
  recorded by its arguments: \<open>i + 1\<close> and the list \<open>xs\<close> handed to \<^verbatim>\<open>np.mean\<close>.
\<close>

datatype 'a progress = Progress nat "'a list"

text \<open>
  The state of a run: as before, with totals of the type \<open>'a\<close> of float sums, and the
  random generator.
\<close>

record ('e, 'r, 'a) run_state =
  rs_q_table :: "real list list"
  rs_reward_list :: "'a list"
  rs_out :: "'a progress list"
  rs_env :: 'e
  rs_rng :: 'r

text \<open>
  The inner loop of \<^verbatim>\<open>q_learning\<close>, line by line as \<open>q_steps\<close>: the call of
  \<^verbatim>\<open>choose_action\<close> is the chooser, \<^verbatim>\<open>total_reward += reward\<close> is \<open>fadd\<close>, and
  \<^verbatim>\<open>## TODO: update Q table\<close> is no statement, so that nothing writes the table.
\<close>

function q_steps_with ::
  "'r chooser \<Rightarrow> ('a \<Rightarrow> real \<Rightarrow> 'a) \<Rightarrow> 'e gym_env \<Rightarrow> real \<Rightarrow> real \<Rightarrow> real \<Rightarrow> nat \<Rightarrow> nat \<Rightarrow> nat
     \<Rightarrow> 'a \<Rightarrow> ('e, 'r, 'a) run_state \<Rightarrow> error + ('e, 'r, 'a) run_state" where
  "q_steps_with pick fadd env alpha gamma eps t_max j s total_reward st =
     (if j < t_max then
        (if s < length (rs_q_table st) then
           (case pick (rs_rng st) (rs_q_table st ! s) eps (action_n env) of
              (Inl err, rng') \<Rightarrow> Inl err
            | (Inr action, rng') \<Rightarrow>
                (case env_step env (rs_env st) action of
                   ((next_s, reward, done), e') \<Rightarrow>
                     if done
                     then Inr (st\<lparr>rs_env := e', rs_rng := rng',
                            rs_reward_list := rs_reward_list st @ [fadd total_reward reward]\<rparr>)
                     else q_steps_with pick fadd env alpha gamma eps t_max (j + 1) next_s
                            (fadd total_reward reward) (st\<lparr>rs_env := e', rs_rng := rng'\<rparr>)))
         else Inl IndexError)
      else Inr st)"
  by pat_completeness auto
termination
  by (relation "measure (\<lambda>(pick, fadd, env, alpha, gamma, eps, t_max, j, s, total_reward, st).
        t_max - j)") auto

text \<open>The outer loop, line by line as \<open>q_episodes\<close>.\<close>

function q_episodes_with ::
  "'r chooser \<Rightarrow> 'a \<Rightarrow> ('a \<Rightarrow> real \<Rightarrow> 'a) \<Rightarrow> 'e gym_env \<Rightarrow> real \<Rightarrow> real \<Rightarrow> real \<Rightarrow> nat \<Rightarrow> nat
     \<Rightarrow> nat \<Rightarrow> ('e, 'r, 'a) run_state \<Rightarrow> error + ('e, 'r, 'a) run_state" where
  "q_episodes_with pick fzero fadd env alpha gamma eps iter_max t_max i st =
     (if i < iter_max then
        (case env_reset env (rs_env st) of
           (s, e1) \<Rightarrow>
             (case q_steps_with pick fadd env alpha gamma eps t_max 0 s fzero
                     (st\<lparr>rs_env := e1\<rparr>) of
                Inl err \<Rightarrow> Inl err
              | Inr st' \<Rightarrow>
                  q_episodes_with pick fzero fadd env alpha gamma eps iter_max t_max (i + 1)
                    (if i mod 100 = 0
                     then st'\<lparr>rs_out := rs_out st' @
                            [Progress (i + 1) (last_100 (rs_reward_list st'))]\<rparr>
                     else st')))
      else Inr st)"
  by pat_completeness auto
termination
  by (relation "measure (\<lambda>(pick, fzero, fadd, env, alpha, gamma, eps, iter_max, t_max, i, st).
        iter_max - i)") auto

definition q_learning_run_with ::
  "'r chooser \<Rightarrow> 'a \<Rightarrow> ('a \<Rightarrow> real \<Rightarrow> 'a) \<Rightarrow> 'e gym_env \<Rightarrow> 'e \<Rightarrow> 'r \<Rightarrow> real \<Rightarrow> real \<Rightarrow> real
     \<Rightarrow> nat \<Rightarrow> nat \<Rightarrow> error + ('e, 'r, 'a) run_state" where
  "q_learning_run_with pick fzero fadd env e rng alpha gamma eps iter_max t_max =
     q_episodes_with pick fzero fadd env alpha gamma eps iter_max t_max 0
       \<lparr>rs_q_table = replicate (observation_n env) (replicate (action_n env) 0),
        rs_reward_list = [], rs_out = [], rs_env = e, rs_rng = rng\<rparr>"

definition q_learning_with ::
  "'r chooser \<Rightarrow> 'a \<Rightarrow> ('a \<Rightarrow> real \<Rightarrow> 'a) \<Rightarrow> 'e gym_env \<Rightarrow> 'e \<Rightarrow> 'r \<Rightarrow> real \<Rightarrow> real \<Rightarrow> real
     \<Rightarrow> nat \<Rightarrow> nat \<Rightarrow> error + nat list" where
  "q_learning_with pick fzero fadd env e rng alpha gamma eps iter_max t_max =
     (case q_learning_run_with pick fzero fadd env e rng alpha gamma eps iter_max t_max of
        Inl err \<Rightarrow> Inl err
      | Inr st \<Rightarrow> np_argmax_axis1 (action_n env) (rs_q_table st))"

text \<open>The notebook's \<^verbatim>\<open>choose_action\<close> as a chooser: it does not touch the generator.\<close>

definition notebook_chooser :: "'r chooser" where
  "notebook_chooser rng q eps num_actions = (choose_action q eps num_actions, rng)"

subsection \<open>\<^verbatim>\<open>evaluate_policy\<close>\<close>

text \<open>
  \<^verbatim>\<open>
  def evaluate_policy(env, policy, render = False):
      obs = env.reset()
      total_reward = 0
      while True:
          if render:
              env.render()
          obs, reward, done , _ = env.step(int(policy[obs]))
          total_reward += reward
          if done:
              break
      return total_reward
  \<close>
  The loop has no bound of its own, so it is a partial function: \<open>None\<close> is a run that
  never returns. A policy is an array of action indices (the zeros of \<^verbatim>\<open>np.zeros\<close>, the
  indices of \<^verbatim>\<open>np.argmax\<close>), on which \<^verbatim>\<open>int\<close> changes nothing; \<^verbatim>\<open>policy[obs]\<close> raises
  \<^verbatim>\<open>IndexError\<close> beyond the array. The sum \<^verbatim>\<open>total_reward += reward\<close> is \<open>fadd\<close>,
  from the initial \<open>fzero\<close>. The result carries the environment the call leaves.
\<close>

partial_function (option) evaluate_loop ::
  "('a \<Rightarrow> real \<Rightarrow> 'a) \<Rightarrow> 'e gym_env \<Rightarrow> nat list \<Rightarrow> bool \<Rightarrow> nat \<Rightarrow> 'a \<Rightarrow> 'e
     \<Rightarrow> (error + 'a \<times> 'e) option" where
  "evaluate_loop fadd env policy rnd obs total_reward e =
     (if obs < length policy then
        (case env_step env (if rnd then env_render env e else e) (policy ! obs) of
           ((obs', reward, done), e') \<Rightarrow>
             if done then Some (Inr (fadd total_reward reward, e'))
             else evaluate_loop fadd env policy rnd obs' (fadd total_reward reward) e')
      else Some (Inl IndexError))"

definition evaluate_policy ::
  "'a \<Rightarrow> ('a \<Rightarrow> real \<Rightarrow> 'a) \<Rightarrow> 'e gym_env \<Rightarrow> 'e \<Rightarrow> nat list \<Rightarrow> bool
     \<Rightarrow> (error + 'a \<times> 'e) option" where
  "evaluate_policy fzero fadd env e policy rnd =
     (case env_reset env e of (obs, e1) \<Rightarrow> evaluate_loop fadd env policy rnd obs fzero e1)"

text \<open>
  One episode under a policy, as a relation: from observation \<open>obs\<close> and environment
  \<open>e\<close>, the policy's actions collect the rewards \<open>rs\<close>, the last of them on the step
  at which the environment reports done, and leave the environment \<open>e'\<close>.
\<close>

inductive episode ::
  "'e gym_env \<Rightarrow> nat list \<Rightarrow> bool \<Rightarrow> nat \<Rightarrow> 'e \<Rightarrow> real list \<Rightarrow> 'e \<Rightarrow> bool"
  for env :: "'e gym_env" and policy :: "nat list" and rnd :: bool where
  episode_done:
    "obs < length policy \<Longrightarrow>
     env_step env (if rnd then env_render env e else e) (policy ! obs) = ((obs', reward, True), e') \<Longrightarrow>
     episode env policy rnd obs e [reward] e'"
| episode_step:
    "obs < length policy \<Longrightarrow>
     env_step env (if rnd then env_render env e else e) (policy ! obs) = ((obs', reward, False), e') \<Longrightarrow>
     episode env policy rnd obs' e' rs e'' \<Longrightarrow>
     episode env policy rnd obs e (reward # rs) e''"

subsection \<open>\<^verbatim>\<open>extract_policy\<close>\<close>

text \<open>
  \<^verbatim>\<open>
  def extract_policy(v, gamma = 1.0):
      """ Extract the policy given a value-function """
      policy = np.zeros(env.observation_space.n)
      for s in range(env.observation_space.n):
          ## TODO: extra the optimal policy based on the optimal value estimate
          ## hint: env.unwrapped.P[s][a] provides the transition probability
          ## hint: env.action_space.n is the number of actions
          ## env.unwrapped.P[s][a] is a tuple of (probability, next state, reward, done)
      return policy
  \<close>
  The body of the \<^verbatim>\<open>for\<close> loop holds comments only. Python demands a statement
  there and refuses the \<^verbatim>\<open>def\<close> with an \<^verbatim>\<open>IndentationError\<close>: the name
  \<^verbatim>\<open>extract_policy\<close> is never bound, and there is no function whose calls could be
  followed. Nothing below stands for it.
\<close>

subsection \<open>The specification's update rules\<close>

text \<open>
  The specification's backed-up value
  \<open>Q(s,a) = \<Sum> p \<cdot> (r + discount \<cdot> V(s') \<cdot> (1 - done))\<close> over the entries
  \<open>(p, s', r, done)\<close> of the transition table, and its sweep value \<open>max\<^sub>a Q(s,a)\<close>
  (taken over the actions \<open>0, \<dots>, action_n - 1\<close>, of which there is at least one).
\<close>

definition spec_q_value :: "'e gym_env \<Rightarrow> real \<Rightarrow> real list \<Rightarrow> nat \<Rightarrow> nat \<Rightarrow> real" where
  "spec_q_value env discount V s a =
     sum_list (map (\<lambda>(p, s', r, done). p * (r + discount * (V ! s') * (1 - (if done then 1 else 0))))
                (env_P env s a))"

definition spec_sweep_value :: "'e gym_env \<Rightarrow> real \<Rightarrow> real list \<Rightarrow> nat \<Rightarrow> real" where
  "spec_sweep_value env discount V s =
     foldl max (spec_q_value env discount V s 0)
       (map (spec_q_value env discount V s) [1..<action_n env])"

text \<open>
  The specification's Q-learning update of the entry \<open>(s, a)\<close> after the environment
  answered \<open>(s', r, done)\<close>:
  \<open>Q(s,a) + learning_rate \<cdot> (r + discount \<cdot> max\<^sub>a\<^sub>' Q(s',a') \<cdot> (1 - done) - Q(s,a))\<close>.
\<close>

definition spec_q_update ::
  "real list list \<Rightarrow> real \<Rightarrow> real \<Rightarrow> nat \<Rightarrow> nat \<Rightarrow> nat \<Rightarrow> real \<Rightarrow> bool \<Rightarrow> real list list" where
  "spec_q_update Q learning_rate discount s a s' r done =
     Q[s := (Q ! s)[a := Q ! s ! a + learning_rate *
        (r + discount * foldl max (hd (Q ! s')) (tl (Q ! s')) * (1 - (if done then 1 else 0))
           - Q ! s ! a)]]"

text \<open>
  The specification's \<open>evaluate_policy(environment, policy, episode_count, max_steps)\<close>:
  for each episode, reset the environment, repeatedly pick \<open>policy[state]\<close>, step and
  accumulate reward until done or after \<open>max_steps\<close> steps; the result is the mean of the
  episodes' totals.
\<close>

fun spec_episode :: "'e gym_env \<Rightarrow> nat list \<Rightarrow> nat \<Rightarrow> nat \<Rightarrow> real \<Rightarrow> 'e \<Rightarrow> real \<times> 'e" where
  "spec_episode env policy 0 s total_reward e = (total_reward, e)"
| "spec_episode env policy (Suc k) s total_reward e =
     (case env_step env e (policy ! s) of
        ((s', r, done), e') \<Rightarrow>
          if done then (total_reward + r, e') else spec_episode env policy k s' (total_reward + r) e')"

fun spec_episode_totals :: "'e gym_env \<Rightarrow> nat list \<Rightarrow> nat \<Rightarrow> nat \<Rightarrow> 'e \<Rightarrow> real list" where
  "spec_episode_totals env policy 0 max_steps e = []"
| "spec_episode_totals env policy (Suc n) max_steps e =
     (case env_reset env e of
        (s, e1) \<Rightarrow>
          (case spec_episode env policy max_steps s 0 e1 of
             (total_reward, e2) \<Rightarrow> total_reward # spec_episode_totals env policy n max_steps e2))"

definition spec_evaluate_policy :: "'e gym_env \<Rightarrow> 'e \<Rightarrow> nat list \<Rightarrow> nat \<Rightarrow> nat \<Rightarrow> real" where
  "spec_evaluate_policy env e policy episode_count max_steps =
     sum_list (spec_episode_totals env policy episode_count max_steps e) / real episode_count"

subsection \<open>Example environments\<close>

text \<open>
  The deterministic chain of two states and two actions: action 0 moves to state 1 and
  ends the episode, with reward 1 when taken in state 0; action 1 stays. The
  environment's state is the current position.
\<close>

definition chain_env :: "nat gym_env" where
  "chain_env =
     \<lparr>observation_n = 2, action_n = 2,
      env_P = (\<lambda>s a. if a = 0 then [(1, 1, if s = 0 then 1 else 0, True)]
                      else [(1, s, 0, False)]),
      env_reset = (\<lambda>e. (0, 0)),
      env_step = (\<lambda>e a. if a = 0 then ((1, if e = 0 then 1 else 0, True), 1)
                         else ((e, 0, False), e)),
      env_render = (\<lambda>e. e)\<rparr>"

text \<open>
  A single state that no action leaves and that is never terminal; the environment's
  state counts the steps taken.
\<close>

definition idle_env :: "nat gym_env" where
  "idle_env =
     \<lparr>observation_n = 1, action_n = 1,
      env_P = (\<lambda>s a. [(1, 0, 0, False)]),
      env_reset = (\<lambda>e. (0, 0)),
      env_step = (\<lambda>e a. ((0, 0, False), e + 1)),
      env_render = (\<lambda>e. e)\<rparr>"

text \<open>
  One-step episodes whose reward alternates: the environment's state counts the resets,
  and the only step pays 1 in odd episodes and 0 in even ones.
\<close>

definition alternating_env :: "nat gym_env" where
  "alternating_env =
     \<lparr>observation_n = 1, action_n = 1,
      env_P = (\<lambda>s a. [(1, 0, 0, True)]),
      env_reset = (\<lambda>e. (0, e + 1)),
      env_step = (\<lambda>e a. ((0, if odd e then 1 else 0, True), e)),
      env_render = (\<lambda>e. e)\<rparr>"

text \<open>
  Any environment with a step counter beside its state: \<^verbatim>\<open>step\<close> counts,
  \<^verbatim>\<open>reset\<close> and \<^verbatim>\<open>render\<close> do not.
\<close>

definition counted :: "'e gym_env \<Rightarrow> ('e \<times> nat) gym_env" where
  "counted env =
     \<lparr>observation_n = observation_n env, action_n = action_n env, env_P = env_P env,
      env_reset = (\<lambda>(e, n). case env_reset env e of (s, e') \<Rightarrow> (s, (e', n))),
      env_step = (\<lambda>(e, n) a. case env_step env e a of (r, e') \<Rightarrow> (r, (e', Suc n))),
      env_render = (\<lambda>(e, n). (env_render env e, n))\<rparr>"


text \<open>
  A chooser that replays a script: the state of its generator is the list of the actions
  still to come, as a seeded generator determines one; with the script used up it
  returns action 0.
\<close>

fun scripted :: "nat list chooser" where
  "scripted [] q eps num_actions = (Inr 0, [])"
| "scripted (a # script) q eps num_actions = (Inr a, script)"

section \<open>Properties\<close>

declare vi_loop.simps [simp del] q_steps.simps [simp del] q_episodes.simps [simp del]
  q_steps_with.simps [simp del] q_episodes_with.simps [simp del]

subsection \<open>The first maximum of a row\<close>

text \<open>
  The scan invariant: \<open>pre\<close> is the part of the row already seen, \<open>best\<close> the first
  position of its maximum \<open>bv\<close>.
\<close>

lemma first_max_from_scan:
  "best < length pre \<Longrightarrow> bv = pre ! best \<Longrightarrow> i = length pre \<Longrightarrow>
   (\<forall>j<length pre. pre ! j \<le> bv) \<Longrightarrow> (\<forall>j<best. pre ! j < bv) \<Longrightarrow>
   first_max_from best bv i xs < length (pre @ xs) \<and>
   (\<forall>j<length (pre @ xs). (pre @ xs) ! j \<le> (pre @ xs) ! first_max_from best bv i xs) \<and>
   (\<forall>j<first_max_from best bv i xs. (pre @ xs) ! j < (pre @ xs) ! first_max_from best bv i xs)"
proof (induction xs arbitrary: pre best bv i)
  case Nil
  then show ?case by simp
next
  case (Cons x xs)
  show ?case
  proof (cases "bv < x")
    case True
    have le: "pre ! j \<le> bv" if "j < length pre" for j
      using Cons.prems(4) that by blast
    have "length pre < length (pre @ [x])" by simp
    moreover have "x = (pre @ [x]) ! length pre" by simp
    moreover have "Suc (length pre) = length (pre @ [x])" by simp
    moreover have "\<forall>j<length (pre @ [x]). (pre @ [x]) ! j \<le> x"
    proof (intro allI impI)
      fix j
      assume j: "j < length (pre @ [x])"
      show "(pre @ [x]) ! j \<le> x"
      proof (cases "j < length pre")
        case True
        with le [OF True] \<open>bv < x\<close> show ?thesis by (simp add: nth_append)
      next
        case False
        with j have "j = length pre" by simp
        then show ?thesis by simp
      qed
    qed
    moreover have "\<forall>j<length pre. (pre @ [x]) ! j < x"
    proof (intro allI impI)
      fix j
      assume j: "j < length pre"
      with le [OF j] True show "(pre @ [x]) ! j < x" by (simp add: nth_append)
    qed
    ultimately have
      "first_max_from (length pre) x (Suc (length pre)) xs < length ((pre @ [x]) @ xs) \<and>
       (\<forall>j<length ((pre @ [x]) @ xs). ((pre @ [x]) @ xs) ! j
            \<le> ((pre @ [x]) @ xs) ! first_max_from (length pre) x (Suc (length pre)) xs) \<and>
       (\<forall>j<first_max_from (length pre) x (Suc (length pre)) xs. ((pre @ [x]) @ xs) ! j
            < ((pre @ [x]) @ xs) ! first_max_from (length pre) x (Suc (length pre)) xs)"
      by (rule Cons.IH)
    with True Cons.prems(3) show ?thesis by simp
  next
    case False
    from Cons.prems(1) have "best < length (pre @ [x])" by simp
    moreover from Cons.prems(1,2) have "bv = (pre @ [x]) ! best" by (simp add: nth_append)
    moreover have "Suc (length pre) = length (pre @ [x])" by simp
    moreover from Cons.prems False have "\<forall>j<length (pre @ [x]). (pre @ [x]) ! j \<le> bv"
      by (auto simp: nth_append less_Suc_eq)
    moreover from Cons.prems have "\<forall>j<best. (pre @ [x]) ! j < bv"
      by (auto simp: nth_append)
    ultimately have
      "first_max_from best bv (Suc (length pre)) xs < length ((pre @ [x]) @ xs) \<and>
       (\<forall>j<length ((pre @ [x]) @ xs). ((pre @ [x]) @ xs) ! j
            \<le> ((pre @ [x]) @ xs) ! first_max_from best bv (Suc (length pre)) xs) \<and>
       (\<forall>j<first_max_from best bv (Suc (length pre)) xs. ((pre @ [x]) @ xs) ! j
            < ((pre @ [x]) @ xs) ! first_max_from best bv (Suc (length pre)) xs)"
      by (rule Cons.IH)
    with False Cons.prems(3) show ?thesis by simp
  qed
qed

text \<open>
  \<^verbatim>\<open>np.argmax\<close> returns a position of the row's maximum, and every earlier entry is
  strictly smaller: among equal maximal entries the lowest index is the result.
\<close>

lemma np_argmax_first_maximum:
  "np_argmax row = Inr k \<Longrightarrow>
   k < length row \<and> (\<forall>j<length row. row ! j \<le> row ! k) \<and> (\<forall>j<k. row ! j < row ! k)"
proof (cases row)
  case Nil
  assume "np_argmax row = Inr k"
  with Nil show ?thesis by (simp add: np_argmax_def)
next
  case (Cons x xs)
  assume "np_argmax row = Inr k"
  with Cons have k: "k = first_max_from 0 x 1 xs" by (simp add: np_argmax_def)
  have "first_max_from 0 x 1 xs < length ([x] @ xs) \<and>
        (\<forall>j<length ([x] @ xs). ([x] @ xs) ! j \<le> ([x] @ xs) ! first_max_from 0 x 1 xs) \<and>
        (\<forall>j<first_max_from 0 x 1 xs. ([x] @ xs) ! j < ([x] @ xs) ! first_max_from 0 x 1 xs)"
    by (rule first_max_from_scan) simp_all
  with k Cons show ?thesis by simp
qed

lemma np_argmax_tie:
  "np_argmax row = Inr k \<Longrightarrow> a < b \<Longrightarrow> b < length row \<Longrightarrow> row ! a = row ! b \<Longrightarrow> k \<noteq> b"
  using np_argmax_first_maximum [of row k] by (auto simp: not_less)

text \<open>On the zero table every row gives index 0.\<close>

lemma first_max_from_zeros: "first_max_from best 0 i (replicate n 0) = best"
  by (induction n arbitrary: i) simp_all

lemma np_argmax_axis1_zeros:
  "np_argmax_axis1 n (replicate m (replicate n 0)) =
     (if n = 0 then Inl ValueError else Inr (replicate m 0))"
proof (cases n)
  case 0
  then show ?thesis by (simp add: np_argmax_axis1_def)
next
  case (Suc k)
  then show ?thesis
    by (simp add: np_argmax_axis1_def np_argmax_def first_max_from_zeros map_replicate_const)
qed

subsection \<open>\<^verbatim>\<open>value_iteration\<close> as it stands\<close>

text \<open>
  C9. As the code stands, for every environment and every discount factor,
  \<^verbatim>\<open>value_iteration\<close> leaves \<^verbatim>\<open>delta\<close> at 0 in its first pass, reports convergence
  at iteration 1 and returns the all-zero table whose length is the environment's state
  count, whatever the rewards and transitions are.
\<close>

theorem value_iteration_stub_converges_at_once:
  "value_iteration env gamma =
     \<lparr>vi_v = replicate (observation_n env) 0, vi_delta = Some 0,
      vi_out = [VI_converged 1]\<rparr>"
  unfolding value_iteration_def
  by (subst vi_loop.simps) (simp add: max_iterations_def vi_eps_def)

text \<open>The first pass of the loop, from any state: it prints and leaves.\<close>

lemma vi_loop_first_pass:
  "vi_loop 0 st = st\<lparr>vi_delta := Some 0, vi_out := vi_out st @ [VI_converged 1]\<rparr>"
  by (subst vi_loop.simps) (simp add: max_iterations_def vi_eps_def)

text \<open>
  C1. The specification has every sweep set \<open>V(s)\<close> to the greatest backed-up value
  \<open>Q(s,a)\<close> and stop once the greatest change is below the tolerance. On the
  two-state chain with discount 1 the first sweep would give \<open>V(0) = 1\<close>, a change
  of 1; the code returns the zero table and reports convergence at iteration 1.
\<close>

theorem value_iteration_skips_backup:
  "vi_v (value_iteration chain_env 1) = [0, 0] \<and>
   vi_out (value_iteration chain_env 1) = [VI_converged 1] \<and>
   spec_sweep_value chain_env 1 [0, 0] 0 = 1"
proof -
  have "value_iteration chain_env 1 =
     vi_loop 0 \<lparr>vi_v = replicate (observation_n chain_env) 0, vi_delta = None, vi_out = []\<rparr>"
    by (simp add: value_iteration_def)
  then have a: "value_iteration chain_env 1 =
     \<lparr>vi_v = replicate (observation_n chain_env) 0, vi_delta = Some 0,
      vi_out = [VI_converged 1]\<rparr>"
    by (simp add: vi_loop_first_pass)
  have b: "spec_sweep_value chain_env 1 [0, 0] 0 = 1"
    by (simp add: spec_sweep_value_def spec_q_value_def chain_env_def upt_rec)
  from a b show ?thesis by (simp add: chain_env_def numeral_2_eq_2)
qed

subsection \<open>\<^verbatim>\<open>choose_action\<close> as it stands\<close>

text \<open>
  C10. As the code stands, \<^verbatim>\<open>choose_action\<close> raises \<^verbatim>\<open>NameError\<close> on every input,
  for every Q-row, every epsilon and every action count, because the variable it returns
  is never assigned; no call returns an action.
\<close>

theorem choose_action_raises:
  "choose_action q eps num_actions = Inl NameError \<and>
   (\<forall>action. choose_action q eps num_actions \<noteq> Inr action)"
  by (simp add: choose_action_def)

text \<open>
  C6. Of two actions with equal Q-values the lower index is to be selected. The row-wise
  \<^verbatim>\<open>np.argmax\<close> behind the policy that \<^verbatim>\<open>q_learning\<close> returns does so (lemma
  \<open>np_argmax_first_maximum\<close>); \<^verbatim>\<open>choose_action\<close> does not: on the tied row
  \<open>[1, 1]\<close> with epsilon 0, where index 0 is due, it raises \<^verbatim>\<open>NameError\<close>.
\<close>

theorem choose_action_tie_raises:
  "choose_action [1, 1] 0 2 = Inl NameError \<and> np_argmax [1, 1] = Inr 0"
  by (simp add: choose_action_def np_argmax_def)

subsection \<open>\<^verbatim>\<open>q_learning\<close> as it stands\<close>

text \<open>
  With no step allowed (\<open>t_max = 0\<close>) every episode is cut off at once: the run goes
  through all its episodes and leaves table and history as they were.
\<close>

lemma q_steps_none: "q_steps env alpha gamma eps 0 j s total_reward st = Inr st"
  by (subst q_steps.simps) simp

lemma q_episodes_no_steps:
  "\<exists>st'. q_episodes env alpha gamma eps iter_max 0 i st = Inr st' \<and>
         q_table st' = q_table st \<and> total_reward_list st' = total_reward_list st"
proof (induction env alpha gamma eps iter_max "0::nat" i st rule: q_episodes.induct)
  case (1 env alpha gamma eps iter_max i st)
  show ?case
  proof (cases "i < iter_max")
    case False
    then show ?thesis by (subst q_episodes.simps) simp
  next
    case True
    obtain s e1 where r: "env_reset env (ql_env st) = (s, e1)"
      by (cases "env_reset env (ql_env st)")
    have b: "q_steps env alpha gamma eps 0 0 s 0 (st\<lparr>ql_env := e1\<rparr>) = Inr (st\<lparr>ql_env := e1\<rparr>)"
      by (rule q_steps_none)
    from "1.hyps" [OF True r [symmetric] b] True r b
    show ?thesis by (subst q_episodes.simps) (auto split: if_splits)
  qed
qed

text \<open>
  With the \<^verbatim>\<open>choose_action\<close> of the notebook the first step of the first episode
  raises: \<^verbatim>\<open>IndexError\<close> when the start state lies beyond the table, \<^verbatim>\<open>NameError\<close>
  otherwise.
\<close>

lemma q_steps_stub:
  "q_steps env alpha gamma eps t_max j s total_reward st =
     (if j < t_max then (if s < length (q_table st) then Inl NameError else Inl IndexError)
      else Inr st)"
  by (subst q_steps.simps) (simp add: choose_action_def)

lemma q_episodes_stub:
  "i < iter_max \<Longrightarrow> 0 < t_max \<Longrightarrow>
   q_episodes env alpha gamma eps iter_max t_max i st =
     (if fst (env_reset env (ql_env st)) < length (q_table st) then Inl NameError
      else Inl IndexError)"
  by (subst q_episodes.simps) (simp add: q_steps_stub split: prod.splits)

text \<open>The outcome of every call.\<close>

lemma q_learning_stub:
  "q_learning env e alpha gamma eps iter_max t_max =
     (if iter_max = 0 \<or> t_max = 0
      then (if action_n env = 0 then Inl ValueError else Inr (replicate (observation_n env) 0))
      else if fst (env_reset env e) < observation_n env then Inl NameError
      else Inl IndexError)"
proof (cases "iter_max = 0 \<or> t_max = 0")
  case False
  then have "0 < iter_max" "0 < t_max" by simp_all
  then show ?thesis
    by (simp add: q_learning_def q_learning_run_def q_episodes_stub)
next
  case True
  let ?init = "\<lparr>q_table = replicate (observation_n env) (replicate (action_n env) 0),
                total_reward_list = [], ql_out = [], ql_env = e\<rparr>"
  have "\<exists>st'. q_episodes env alpha gamma eps iter_max t_max 0 ?init = Inr st' \<and>
          q_table st' = q_table ?init"
  proof (cases "t_max = 0")
    case True
    with q_episodes_no_steps [of env alpha gamma eps iter_max 0 ?init] show ?thesis by blast
  next
    case False
    with \<open>iter_max = 0 \<or> t_max = 0\<close> have "iter_max = 0" by simp
    then show ?thesis by (subst q_episodes.simps) simp
  qed
  then obtain st' where "q_episodes env alpha gamma eps iter_max t_max 0 ?init = Inr st'"
    and "q_table st' = replicate (observation_n env) (replicate (action_n env) 0)"
    by auto
  with True show ?thesis
    by (simp add: q_learning_def q_learning_run_def np_argmax_axis1_zeros)
qed

text \<open>
  C2. The specification has every step of an episode update the visited entry of the
  Q-table. On the chain, a greedy first step from the zero table takes action 0, earns
  reward 1 and ends the episode, and the update with learning rate 1/2 would set
  \<open>Q(0,0)\<close> to 1/2. The code has no update statement, and the run raises
  \<^verbatim>\<open>NameError\<close> at its first step.
\<close>

theorem q_learning_skips_update:
  "q_learning chain_env 0 (1/2) 1 0 1 1 = Inl NameError \<and>
   spec_q_update [[0, 0], [0, 0]] (1/2) 1 0 0 1 1 True = [[1/2, 0], [0, 0]]"
  by (simp add: q_learning_stub chain_env_def spec_q_update_def)



subsection \<open>\<^verbatim>\<open>q_learning\<close> for any action chooser: the runs that return\<close>

text \<open>
  What a returning pass of the inner loop did: it stood at the step cap, or it took a
  step on which the environment reported done, or it took a step and went on.
\<close>

lemma q_steps_with_Inr:
  assumes "q_steps_with pick fadd env alpha gamma eps t_max j s total_reward st = Inr st'"
  shows "(\<not> j < t_max \<and> st' = st) \<or>
         (j < t_max \<and> s < length (rs_q_table st) \<and>
          (\<exists>action rng' next_s reward dn e'.
             pick (rs_rng st) (rs_q_table st ! s) eps (action_n env) = (Inr action, rng') \<and>
             env_step env (rs_env st) action = ((next_s, reward, dn), e') \<and>
             (if dn
              then st' = st\<lparr>rs_env := e', rs_rng := rng',
                     rs_reward_list := rs_reward_list st @ [fadd total_reward reward]\<rparr>
              else q_steps_with pick fadd env alpha gamma eps t_max (j + 1) next_s
                     (fadd total_reward reward) (st\<lparr>rs_env := e', rs_rng := rng'\<rparr>) = Inr st')))"
  using assms
  by (subst (asm) q_steps_with.simps) (auto split: if_splits sum.splits prod.splits)

text \<open>Induction over the returning runs of the inner loop.\<close>

lemma q_steps_with_returns [consumes 1, case_names cap ended step]:
  assumes run: "q_steps_with pick fadd env alpha gamma eps t_max j s total_reward st = Inr st'"
    and cap: "\<And>j s total_reward st. \<not> j < t_max \<Longrightarrow> Q j s total_reward st st"
    and dn: "\<And>j s total_reward st action rng' next_s reward e'.
        j < t_max \<Longrightarrow> s < length (rs_q_table st) \<Longrightarrow>
        pick (rs_rng st) (rs_q_table st ! s) eps (action_n env) = (Inr action, rng') \<Longrightarrow>
        env_step env (rs_env st) action = ((next_s, reward, True), e') \<Longrightarrow>
        Q j s total_reward st
          (st\<lparr>rs_env := e', rs_rng := rng',
             rs_reward_list := rs_reward_list st @ [fadd total_reward reward]\<rparr>)"
    and step: "\<And>j s total_reward st action rng' next_s reward e' st'.
        j < t_max \<Longrightarrow> s < length (rs_q_table st) \<Longrightarrow>
        pick (rs_rng st) (rs_q_table st ! s) eps (action_n env) = (Inr action, rng') \<Longrightarrow>
        env_step env (rs_env st) action = ((next_s, reward, False), e') \<Longrightarrow>
        Q (j + 1) next_s (fadd total_reward reward) (st\<lparr>rs_env := e', rs_rng := rng'\<rparr>) st' \<Longrightarrow>
        Q j s total_reward st st'"
  shows "Q j s total_reward st st'"
  using assms
proof (induction pick fadd env alpha gamma eps t_max j s total_reward st rule: q_steps_with.induct)
  case (1 pick fadd env alpha gamma eps t_max j s total_reward st)
  from q_steps_with_Inr [OF "1.prems"(1)] show ?case
  proof (elim disjE conjE exE)
    assume "\<not> j < t_max" "st' = st"
    with "1.prems"(2) show ?thesis by simp
  next
    fix action rng' next_s reward dn e'
    assume j: "j < t_max" and s: "s < length (rs_q_table st)"
      and p: "pick (rs_rng st) (rs_q_table st ! s) eps (action_n env) = (Inr action, rng')"
      and e: "env_step env (rs_env st) action = ((next_s, reward, dn), e')"
      and r: "if dn
              then st' = st\<lparr>rs_env := e', rs_rng := rng',
                     rs_reward_list := rs_reward_list st @ [fadd total_reward reward]\<rparr>
              else q_steps_with pick fadd env alpha gamma eps t_max (j + 1) next_s
                     (fadd total_reward reward) (st\<lparr>rs_env := e', rs_rng := rng'\<rparr>) = Inr st'"
    show ?thesis
    proof (cases dn)
      case True
      with r e "1.prems"(3) [OF j s p] show ?thesis by simp
    next
      case False
      with r have next_run: "q_steps_with pick fadd env alpha gamma eps t_max (j + 1) next_s
                     (fadd total_reward reward) (st\<lparr>rs_env := e', rs_rng := rng'\<rparr>) = Inr st'"
        by simp
      have "Q (j + 1) next_s (fadd total_reward reward) (st\<lparr>rs_env := e', rs_rng := rng'\<rparr>) st'"
        by (rule "1.IH" [OF j s p [symmetric] _ e [symmetric] _ _ False next_run])
          (simp_all add: "1.prems"(2,3,4))
      with e False show ?thesis by (intro "1.prems"(4) [OF j s p]) simp_all
    qed
  qed
qed

text \<open>The same for the outer loop: it stood at the episode cap, or it ran an episode.\<close>

lemma q_episodes_with_Inr:
  assumes "q_episodes_with pick fzero fadd env alpha gamma eps iter_max t_max i st = Inr st'"
  shows "(\<not> i < iter_max \<and> st' = st) \<or>
         (i < iter_max \<and>
          (\<exists>s e1 st1.
             env_reset env (rs_env st) = (s, e1) \<and>
             q_steps_with pick fadd env alpha gamma eps t_max 0 s fzero (st\<lparr>rs_env := e1\<rparr>) = Inr st1 \<and>
             q_episodes_with pick fzero fadd env alpha gamma eps iter_max t_max (i + 1)
               (if i mod 100 = 0
                then st1\<lparr>rs_out := rs_out st1 @ [Progress (i + 1) (last_100 (rs_reward_list st1))]\<rparr>
                else st1) = Inr st'))"
  using assms
  by (subst (asm) q_episodes_with.simps) (auto split: if_splits sum.splits prod.splits)

lemma q_episodes_with_returns [consumes 1, case_names cap episode]:
  assumes run: "q_episodes_with pick fzero fadd env alpha gamma eps iter_max t_max i st = Inr st'"
    and cap: "\<And>i st. \<not> i < iter_max \<Longrightarrow> Q i st st"
    and episode: "\<And>i st s e1 st1 st'.
        i < iter_max \<Longrightarrow> env_reset env (rs_env st) = (s, e1) \<Longrightarrow>
        q_steps_with pick fadd env alpha gamma eps t_max 0 s fzero (st\<lparr>rs_env := e1\<rparr>) = Inr st1 \<Longrightarrow>
        Q (i + 1)
          (if i mod 100 = 0
           then st1\<lparr>rs_out := rs_out st1 @ [Progress (i + 1) (last_100 (rs_reward_list st1))]\<rparr>
           else st1) st' \<Longrightarrow>
        Q i st st'"
  shows "Q i st st'"
  using assms
proof (induction pick fzero fadd env alpha gamma eps iter_max t_max i st
    rule: q_episodes_with.induct)
  case (1 pick fzero fadd env alpha gamma eps iter_max t_max i st)
  from q_episodes_with_Inr [OF "1.prems"(1)] show ?case
  proof (elim disjE conjE exE)
    assume "\<not> i < iter_max" "st' = st"
    with "1.prems"(2) show ?thesis by simp
  next
    fix s e1 st1
    assume i: "i < iter_max" and r: "env_reset env (rs_env st) = (s, e1)"
      and q: "q_steps_with pick fadd env alpha gamma eps t_max 0 s fzero (st\<lparr>rs_env := e1\<rparr>) = Inr st1"
      and rest: "q_episodes_with pick fzero fadd env alpha gamma eps iter_max t_max (i + 1)
               (if i mod 100 = 0
                then st1\<lparr>rs_out := rs_out st1 @ [Progress (i + 1) (last_100 (rs_reward_list st1))]\<rparr>
                else st1) = Inr st'"
    have "Q (i + 1)
          (if i mod 100 = 0
           then st1\<lparr>rs_out := rs_out st1 @ [Progress (i + 1) (last_100 (rs_reward_list st1))]\<rparr>
           else st1) st'"
      by (rule "1.IH" [OF i r [symmetric] q rest]) (simp_all add: "1.prems"(2,3))
    with i r q show ?thesis by (rule "1.prems"(3))
  qed
qed

text \<open>Neither loop writes the Q-table.\<close>

lemma q_steps_with_table:
  "q_steps_with pick fadd env alpha gamma eps t_max j s total_reward st = Inr st' \<Longrightarrow>
   rs_q_table st' = rs_q_table st"
  by (induction rule: q_steps_with_returns) simp_all

lemma q_episodes_with_table:
  "q_episodes_with pick fzero fadd env alpha gamma eps iter_max t_max i st = Inr st' \<Longrightarrow>
   rs_q_table st' = rs_q_table st"
proof (induction rule: q_episodes_with_returns)
  case (cap i st)
  then show ?case by simp
next
  case (episode i st s e1 st1 st')
  from q_steps_with_table [OF episode(3)] episode(4) show ?case by (simp split: if_splits)
qed











text \<open>
  The loops for any chooser are the loops of the notebook: with the notebook's
  \<^verbatim>\<open>choose_action\<close> they give what \<open>q_learning\<close> gives.
\<close>

lemma q_steps_with_notebook:
  "q_steps_with notebook_chooser fadd env alpha gamma eps t_max j s total_reward st =
     (if j < t_max then (if s < length (rs_q_table st) then Inl NameError else Inl IndexError)
      else Inr st)"
  by (subst q_steps_with.simps) (simp add: notebook_chooser_def choose_action_def)

lemma q_steps_with_none:
  "q_steps_with pick fadd env alpha gamma eps 0 j s total_reward st = Inr st"
  by (subst q_steps_with.simps) simp

lemma q_episodes_with_no_steps:
  "\<exists>st'. q_episodes_with pick fzero fadd env alpha gamma eps iter_max 0 i st = Inr st'"
proof (induction pick fzero fadd env alpha gamma eps iter_max "0::nat" i st
    rule: q_episodes_with.induct)
  case (1 pick fzero fadd env alpha gamma eps iter_max i st)
  show ?case
  proof (cases "i < iter_max")
    case False
    then show ?thesis by (subst q_episodes_with.simps) simp
  next
    case True
    obtain s e1 where r: "env_reset env (rs_env st) = (s, e1)"
      by (cases "env_reset env (rs_env st)")
    have b: "q_steps_with pick fadd env alpha gamma eps 0 0 s fzero (st\<lparr>rs_env := e1\<rparr>) =
        Inr (st\<lparr>rs_env := e1\<rparr>)"
      by (rule q_steps_with_none)
    from "1.hyps" [OF True r [symmetric] b] True r b
    show ?thesis by (subst q_episodes_with.simps) (auto split: if_splits)
  qed
qed

lemma q_learning_with_notebook:
  "q_learning_with notebook_chooser fzero fadd env e rng alpha gamma eps iter_max t_max =
     q_learning env e alpha gamma eps iter_max t_max"
proof (cases "iter_max = 0 \<or> t_max = 0")
  case False
  then have "0 < iter_max" "0 < t_max" by simp_all
  then show ?thesis
    by (subst q_learning_stub)
      (simp add: q_learning_with_def q_learning_run_with_def q_episodes_with.simps [of _ _ _ _ _ _ _ _ _ 0]
        q_steps_with_notebook split: prod.splits)
next
  case True
  let ?init = "\<lparr>rs_q_table = replicate (observation_n env) (replicate (action_n env) 0),
                rs_reward_list = [], rs_out = [], rs_env = e, rs_rng = rng\<rparr>"
  have "\<exists>st'. q_episodes_with notebook_chooser fzero fadd env alpha gamma eps iter_max t_max 0 ?init
           = Inr st'"
  proof (cases "t_max = 0")
    case True
    with q_episodes_with_no_steps [of notebook_chooser fzero fadd env alpha gamma eps iter_max 0 ?init]
    show ?thesis by simp
  next
    case False
    with \<open>iter_max = 0 \<or> t_max = 0\<close> have "iter_max = 0" by simp
    then show ?thesis by (subst q_episodes_with.simps) simp
  qed
  then obtain st' where
    run: "q_episodes_with notebook_chooser fzero fadd env alpha gamma eps iter_max t_max 0 ?init = Inr st'"
    by blast
  from q_episodes_with_table [OF run]
  have "rs_q_table st' = replicate (observation_n env) (replicate (action_n env) 0)" by simp
  with run True show ?thesis
    by (simp add: q_learning_with_def q_learning_run_with_def q_learning_stub np_argmax_axis1_zeros)
qed


text \<open>
  Runs of the scripted chooser (the sums \<open>0 + 1\<close> and \<open>0 + 0\<close> of their totals are exact
  in float64). On the idle environment, two episodes of two steps each, none of them
  ended by done.
\<close>

lemma scripted_total:
  "\<forall>rng q eps' n. \<exists>a rng'. scripted rng q eps' n = (Inr a, rng')"
proof (intro allI)
  fix rng :: "nat list" and q :: "real list" and eps' :: real and n :: nat
  show "\<exists>a rng'. scripted rng q eps' n = (Inr a, rng')" by (cases rng) simp_all
qed









subsection \<open>\<^verbatim>\<open>evaluate_policy\<close>: one episode\<close>

text \<open>
  An episode that ends by done makes the loop return, with the rewards added from the
  left in the order received.
\<close>

lemma evaluate_loop_sound:
  "episode env policy rnd obs e rs e' \<Longrightarrow>
   evaluate_loop fadd env policy rnd obs total_reward e = Some (Inr (foldl fadd total_reward rs, e'))"
proof (induction arbitrary: total_reward rule: episode.induct)
  case (episode_done obs e obs' reward e')
  then show ?case by (subst evaluate_loop.simps) simp
next
  case (episode_step obs e obs' reward e' rs e'')
  then show ?case by (subst evaluate_loop.simps) simp
qed

text \<open>
  Induction over the runs that return: the fixpoint rule of the loop, with the run as
  the first premise.
\<close>

lemmas evaluate_loop_induct = evaluate_loop.raw_induct [rotated 1, consumes 1, case_names step]

lemma evaluate_loop_complete:
  "evaluate_loop fadd env policy rnd obs total_reward e = Some y \<Longrightarrow>
   y = Inl IndexError \<or>
   (\<exists>rs e'. episode env policy rnd obs e rs e' \<and> y = Inr (foldl fadd total_reward rs, e'))"
proof (induction fadd env policy rnd obs total_reward e y rule: evaluate_loop_induct)
  case (step evaluate_loop fadd env policy rnd obs total_reward e y)
  show ?case
  proof (cases "obs < length policy")
    case False
    with "step.hyps" show ?thesis by simp
  next
    case True
    obtain obs' reward dn e1 where
      st: "env_step env (if rnd then env_render env e else e) (policy ! obs) = ((obs', reward, dn), e1)"
      by (cases "env_step env (if rnd then env_render env e else e) (policy ! obs)") auto
    show ?thesis
    proof (cases dn)
      case True
      with \<open>obs < length policy\<close> st "step.hyps" have "y = Inr (fadd total_reward reward, e1)"
        by simp
      moreover from \<open>obs < length policy\<close> st True have "episode env policy rnd obs e [reward] e1"
        by (auto intro: episode.episode_done)
      ultimately show ?thesis by fastforce
    next
      case False
      with \<open>obs < length policy\<close> st "step.hyps"
      have "evaluate_loop fadd env policy rnd obs' (fadd total_reward reward) e1 = Some y" by simp
      from "step.IH" [OF this] show ?thesis
      proof
        assume "y = Inl IndexError" then show ?thesis by simp
      next
        assume "\<exists>rs e'. episode env policy rnd obs' e1 rs e' \<and>
                  y = Inr (foldl fadd (fadd total_reward reward) rs, e')"
        then obtain rs e' where ep: "episode env policy rnd obs' e1 rs e'"
          and y: "y = Inr (foldl fadd (fadd total_reward reward) rs, e')" by blast
        from \<open>obs < length policy\<close> st False ep
        have "episode env policy rnd obs e (reward # rs) e'"
          by (auto intro: episode.episode_step)
        moreover from y have "y = Inr (foldl fadd total_reward (reward # rs), e')" by simp
        ultimately show ?thesis by blast
      qed
    qed
  qed
qed

lemma evaluate_policy_unfold:
  "evaluate_policy fzero fadd env e policy rnd =
     evaluate_loop fadd env policy rnd (fst (env_reset env e)) fzero (snd (env_reset env e))"
  by (simp add: evaluate_policy_def case_prod_beta)

text \<open>
  C5 (amended). \<^verbatim>\<open>evaluate_policy(env, policy, render)\<close> runs a single episode: it
  resets the environment, takes \<^verbatim>\<open>policy[obs]\<close> step by step and adds each reward to
  the running total until the environment reports done. It returns a total exactly when
  such an episode exists, and the total is the float sum of that episode's rewards, added
  from the left in the order received; it takes no episode count, forms no mean and has
  no step cap.
\<close>

theorem evaluate_policy_single_episode:
  "evaluate_policy fzero fadd env e policy rnd = Some (Inr (r, e')) \<longleftrightarrow>
     (\<exists>rs. episode env policy rnd (fst (env_reset env e)) (snd (env_reset env e)) rs e' \<and>
           r = foldl fadd fzero rs)"
proof
  assume "evaluate_policy fzero fadd env e policy rnd = Some (Inr (r, e'))"
  then have "evaluate_loop fadd env policy rnd (fst (env_reset env e)) fzero (snd (env_reset env e)) =
      Some (Inr (r, e'))"
    by (simp add: evaluate_policy_unfold)
  from evaluate_loop_complete [OF this] show
    "\<exists>rs. episode env policy rnd (fst (env_reset env e)) (snd (env_reset env e)) rs e' \<and>
          r = foldl fadd fzero rs"
    by auto
next
  assume "\<exists>rs. episode env policy rnd (fst (env_reset env e)) (snd (env_reset env e)) rs e' \<and>
          r = foldl fadd fzero rs"
  then obtain rs where
    "episode env policy rnd (fst (env_reset env e)) (snd (env_reset env e)) rs e'"
    and "r = foldl fadd fzero rs" by blast
  with evaluate_loop_sound [of env policy rnd "fst (env_reset env e)" "snd (env_reset env e)" rs e'
      fadd fzero]
  show "evaluate_policy fzero fadd env e policy rnd = Some (Inr (r, e'))"
    by (simp add: evaluate_policy_unfold)
qed

text \<open>
  On the chain the policy \<open>[0, 0]\<close> ends the episode at its first step, with reward 1
  (\<open>0 + 1\<close> is exact in float64).
\<close>

theorem evaluate_policy_single_episode_witness:
  "episode chain_env [0, 0] False 0 0 [1] 1 \<and>
   evaluate_policy 0 (+) chain_env 0 [0, 0] False = Some (Inr (1, 1))"
proof -
  have ep: "episode chain_env [0, 0] False 0 0 [1] 1"
    by (rule episode_done [where obs' = 1]) (simp_all add: chain_env_def)
  have r: "env_reset chain_env 0 = (0, 0)" by (simp add: chain_env_def)
  from ep r have "\<exists>rs. episode chain_env [0, 0] False (fst (env_reset chain_env 0))
       (snd (env_reset chain_env 0)) rs 1 \<and> (1::real) = foldl (+) 0 rs"
    by (intro exI [of _ "[1]"]) simp
  with evaluate_policy_single_episode [of 0 "(+)" chain_env 0 "[0, 0]" False 1 1] ep
  show ?thesis by simp
qed

text \<open>
  C5 as stated fails: where episodes pay 1 and 0 in turn, the mean over two episodes is
  1/2, and \<^verbatim>\<open>evaluate_policy\<close> returns 1, the total of the one episode it runs
  (its one addition \<open>0 + 1\<close> is exact in float64).
\<close>

theorem evaluate_policy_not_mean:
  "evaluate_policy 0 (+) alternating_env 0 [0] False = Some (Inr (1, 1)) \<and>
   spec_evaluate_policy alternating_env 0 [0] 2 10 = 1 / 2"
proof -
  have a: "evaluate_policy 0 (+) alternating_env 0 [0] False = Some (Inr (1, 1))"
  proof -
    have "env_reset alternating_env 0 = (0, 1)" by (simp add: alternating_env_def)
    moreover have "evaluate_loop (+) alternating_env [0] False 0 0 1 = Some (Inr (1, 1))"
      by (subst evaluate_loop.simps) (simp add: alternating_env_def)
    ultimately show ?thesis by (simp add: evaluate_policy_def)
  qed
  have g: "spec_episode alternating_env [0] (Suc k) 0 0 e = (if odd e then 1 else 0, e)" for k e
    by (simp add: alternating_env_def)
  have ep: "spec_episode alternating_env [0] 10 0 0 e = (if odd e then 1 else 0, e)" for e
    using g [of 9 e] by simp
  have rs: "env_reset alternating_env e = (0, Suc e)" for e
    by (simp add: alternating_env_def)
  have "spec_episode_totals alternating_env [0] (Suc (Suc 0)) 10 0 = [1, 0]"
    by (simp add: ep rs)
  then have b: "spec_evaluate_policy alternating_env 0 [0] 2 10 = 1 / 2"
    by (simp add: spec_evaluate_policy_def numeral_2_eq_2)
  from a b show ?thesis by simp
qed

subsection \<open>Step caps\<close>

text \<open>Steps counted: \<open>m\<close> is any reading of the environment that each step raises by one.\<close>

lemma q_steps_with_count_le:
  "q_steps_with pick fadd env alpha gamma eps t_max j s total_reward st = Inr st' \<Longrightarrow>
   \<forall>c a. m (snd (env_step env c a)) = Suc (m c) \<Longrightarrow>
   m (rs_env st') \<le> m (rs_env st) + (t_max - j)"
proof (induction rule: q_steps_with_returns)
  case (cap j s total_reward st)
  then show ?case by simp
next
  case (ended j s total_reward st action rng' next_s reward e')
  from ended(5) have "m (snd (env_step env (rs_env st) action)) = Suc (m (rs_env st))" by blast
  with ended(1,4) show ?case by simp
next
  case (step j s total_reward st action rng' next_s reward e' st')
  from step(6) have "m (snd (env_step env (rs_env st) action)) = Suc (m (rs_env st))" by blast
  with step(1,4) step(5) [OF step(6)] show ?case by simp
qed

lemma q_steps_with_count_eq:
  "q_steps_with pick fadd env alpha gamma eps t_max j s total_reward st = Inr st' \<Longrightarrow>
   \<forall>c a. m (snd (env_step env c a)) = Suc (m c) \<Longrightarrow>
   \<forall>c a. \<not> snd (snd (fst (env_step env c a))) \<Longrightarrow>
   m (rs_env st') = m (rs_env st) + (t_max - j)"
proof (induction rule: q_steps_with_returns)
  case (cap j s total_reward st)
  then show ?case by simp
next
  case (ended j s total_reward st action rng' next_s reward e')
  from ended(6) have "\<not> snd (snd (fst (env_step env (rs_env st) action)))" by blast
  with ended(4) show ?case by simp
next
  case (step j s total_reward st action rng' next_s reward e' st')
  from step(6) have "m (snd (env_step env (rs_env st) action)) = Suc (m (rs_env st))" by blast
  with step(1,4) step(5) [OF step(6,7)] show ?case by simp
qed

lemma q_episodes_with_count_le:
  "q_episodes_with pick fzero fadd env alpha gamma eps iter_max t_max i st = Inr st' \<Longrightarrow>
   \<forall>c a. m (snd (env_step env c a)) = Suc (m c) \<Longrightarrow>
   \<forall>c. m (snd (env_reset env c)) = m c \<Longrightarrow>
   m (rs_env st') \<le> m (rs_env st) + (iter_max - i) * t_max"
proof (induction rule: q_episodes_with_returns)
  case (cap i st)
  then show ?case by simp
next
  case (episode i st s e1 st1 st')
  from episode(6) have "m (snd (env_reset env (rs_env st))) = m (rs_env st)" by blast
  with episode(2) have r: "m e1 = m (rs_env st)" by simp
  from q_steps_with_count_le [OF episode(3,5)] r
  have one: "m (rs_env st1) \<le> m (rs_env st) + t_max" by simp
  from episode(4) [OF episode(5,6)]
  have rest: "m (rs_env st') \<le> m (rs_env st1) + (iter_max - (i + 1)) * t_max"
    by (simp split: if_splits)
  from episode(1) have "iter_max - i = Suc (iter_max - (i + 1))" by arith
  then have "(iter_max - i) * t_max = t_max + (iter_max - (i + 1)) * t_max"
    by (simp only: mult_Suc)
  with one rest show ?case by simp
qed

lemma q_episodes_with_count_eq:
  "q_episodes_with pick fzero fadd env alpha gamma eps iter_max t_max i st = Inr st' \<Longrightarrow>
   \<forall>c a. m (snd (env_step env c a)) = Suc (m c) \<Longrightarrow>
   \<forall>c. m (snd (env_reset env c)) = m c \<Longrightarrow>
   \<forall>c a. \<not> snd (snd (fst (env_step env c a))) \<Longrightarrow>
   m (rs_env st') = m (rs_env st) + (iter_max - i) * t_max"
proof (induction rule: q_episodes_with_returns)
  case (cap i st)
  then show ?case by simp
next
  case (episode i st s e1 st1 st')
  from episode(6) have "m (snd (env_reset env (rs_env st))) = m (rs_env st)" by blast
  with episode(2) have r: "m e1 = m (rs_env st)" by simp
  from q_steps_with_count_eq [OF episode(3,5,7)] r
  have one: "m (rs_env st1) = m (rs_env st) + t_max" by simp
  from episode(4) [OF episode(5,6,7)]
  have rest: "m (rs_env st') = m (rs_env st1) + (iter_max - (i + 1)) * t_max"
    by (simp split: if_splits)
  from episode(1) have "iter_max - i = Suc (iter_max - (i + 1))" by arith
  then have "(iter_max - i) * t_max = t_max + (iter_max - (i + 1)) * t_max"
    by (simp only: mult_Suc)
  with one rest show ?case by simp
qed

text \<open>The counter of \<open>counted\<close> is such a reading.\<close>

lemma counted_step: "snd (snd (env_step (counted env) c a)) = Suc (snd c)"
  by (simp add: counted_def case_prod_beta)

lemma counted_reset: "snd (snd (env_reset (counted env) c)) = snd c"
  by (simp add: counted_def case_prod_beta)

lemma counted_done:
  "snd (snd (fst (env_step (counted env) c a))) = snd (snd (fst (env_step env (fst c) a)))"
  by (simp add: counted_def case_prod_beta)

text \<open>
  A run of \<^verbatim>\<open>evaluate_policy\<close> that returns on an environment that never reports
  done can only have left through the \<^verbatim>\<open>IndexError\<close> of a policy lookup; where the
  policy covers every state the environment shows, that does not happen either.
\<close>

lemma evaluate_loop_never_done:
  "evaluate_loop fadd env policy rnd obs total_reward e = Some y \<Longrightarrow>
   (\<forall>e a. \<not> snd (snd (fst (env_step env e a)))) \<Longrightarrow> y = Inl IndexError"
proof (induction fadd env policy rnd obs total_reward e y rule: evaluate_loop_induct)
  case (step evaluate_loop fadd env policy rnd obs total_reward e y)
  show ?case
  proof (cases "obs < length policy")
    case False
    with "step.hyps" show ?thesis by simp
  next
    case True
    obtain obs' reward dn e1 where
      st: "env_step env (if rnd then env_render env e else e) (policy ! obs) = ((obs', reward, dn), e1)"
      by (cases "env_step env (if rnd then env_render env e else e) (policy ! obs)") auto
    from "step.prems" have "\<not> snd (snd (fst (env_step env (if rnd then env_render env e else e) (policy ! obs))))"
      by blast
    with st have "\<not> dn" by simp
    with True st "step.hyps"
    have "evaluate_loop fadd env policy rnd obs' (fadd total_reward reward) e1 = Some y" by simp
    from "step.IH" [OF this "step.prems"] show ?thesis .
  qed
qed

lemma evaluate_loop_covered:
  "evaluate_loop fadd env policy rnd obs total_reward e = Some y \<Longrightarrow>
   obs < length policy \<Longrightarrow>
   (\<forall>e a. fst (fst (env_step env e a)) < length policy) \<Longrightarrow> y \<noteq> Inl IndexError"
proof (induction fadd env policy rnd obs total_reward e y rule: evaluate_loop_induct)
  case (step evaluate_loop fadd env policy rnd obs total_reward e y)
  obtain obs' reward dn e1 where
    st: "env_step env (if rnd then env_render env e else e) (policy ! obs) = ((obs', reward, dn), e1)"
    by (cases "env_step env (if rnd then env_render env e else e) (policy ! obs)") auto
  from "step.prems"(2) have "fst (fst (env_step env (if rnd then env_render env e else e) (policy ! obs))) < length policy"
    by blast
  with st have o: "obs' < length policy" by simp
  show ?case
  proof (cases dn)
    case True
    with "step.prems"(1) st "step.hyps" show ?thesis by auto
  next
    case False
    with "step.prems"(1) st "step.hyps"
    have "evaluate_loop fadd env policy rnd obs' (fadd total_reward reward) e1 = Some y" by simp
    from "step.IH" [OF this o "step.prems"(2)] show ?thesis .
  qed
qed

lemma evaluate_loop_diverges:
  assumes "\<forall>e a. \<not> snd (snd (fst (env_step env e a)))"
    and "\<forall>e a. fst (fst (env_step env e a)) < length policy"
    and "obs < length policy"
  shows "evaluate_loop fadd env policy rnd obs total_reward e = None"
proof (cases "evaluate_loop fadd env policy rnd obs total_reward e")
  case None
  then show ?thesis .
next
  case (Some y)
  from evaluate_loop_never_done [OF Some assms(1)] evaluate_loop_covered [OF Some assms(3,2)]
  show ?thesis by simp
qed

text \<open>
  Where the chooser always returns an action and the environment keeps its states within
  the table, nothing but the caps ends the loops: a run returns.
\<close>

lemma q_steps_with_total:
  "\<forall>rng q eps' n. \<exists>a rng'. pick rng q eps' n = (Inr a, rng') \<Longrightarrow>
   \<forall>c a. fst (fst (env_step env c a)) < length (rs_q_table st) \<Longrightarrow>
   s < length (rs_q_table st) \<Longrightarrow>
   \<exists>st'. q_steps_with pick fadd env alpha gamma eps t_max j s total_reward st = Inr st'"
proof (induction pick fadd env alpha gamma eps t_max j s total_reward st rule: q_steps_with.induct)
  case (1 pick fadd env alpha gamma eps t_max j s total_reward st)
  show ?case
  proof (cases "j < t_max")
    case False
    then show ?thesis by (subst q_steps_with.simps) simp
  next
    case True
    from "1.prems"(1) obtain action rng' where
      p: "pick (rs_rng st) (rs_q_table st ! s) eps (action_n env) = (Inr action, rng')"
      by blast
    obtain next_s reward dn e' where
      e: "env_step env (rs_env st) action = ((next_s, reward, dn), e')"
      by (cases "env_step env (rs_env st) action") auto
    show ?thesis
    proof (cases dn)
      case True
      with \<open>j < t_max\<close> "1.prems"(3) p e show ?thesis
        by (subst q_steps_with.simps) simp
    next
      case False
      from "1.prems"(2) have "fst (fst (env_step env (rs_env st) action)) < length (rs_q_table st)"
        by blast
      with e have ns: "next_s < length (rs_q_table (st\<lparr>rs_env := e', rs_rng := rng'\<rparr>))"
        by simp
      from "1.prems"(2)
      have r: "\<forall>c a. fst (fst (env_step env c a)) < length (rs_q_table (st\<lparr>rs_env := e', rs_rng := rng'\<rparr>))"
        by simp
      have "\<exists>st'. q_steps_with pick fadd env alpha gamma eps t_max (j + 1) next_s
          (fadd total_reward reward) (st\<lparr>rs_env := e', rs_rng := rng'\<rparr>) = Inr st'"
        by (rule "1.IH" [OF True "1.prems"(3) p [symmetric] _ e [symmetric] _ _ False
              "1.prems"(1) r ns]) simp_all
      then obtain st' where "q_steps_with pick fadd env alpha gamma eps t_max (j + 1) next_s
          (fadd total_reward reward) (st\<lparr>rs_env := e', rs_rng := rng'\<rparr>) = Inr st'"
        by blast
      with \<open>j < t_max\<close> "1.prems"(3) p e False show ?thesis
        by (subst q_steps_with.simps) simp
    qed
  qed
qed

lemma q_episodes_with_total:
  "\<forall>rng q eps' n. \<exists>a rng'. pick rng q eps' n = (Inr a, rng') \<Longrightarrow>
   \<forall>c a. fst (fst (env_step env c a)) < length (rs_q_table st) \<Longrightarrow>
   \<forall>c. fst (env_reset env c) < length (rs_q_table st) \<Longrightarrow>
   \<exists>st'. q_episodes_with pick fzero fadd env alpha gamma eps iter_max t_max i st = Inr st'"
proof (induction pick fzero fadd env alpha gamma eps iter_max t_max i st
    rule: q_episodes_with.induct)
  case (1 pick fzero fadd env alpha gamma eps iter_max t_max i st)
  show ?case
  proof (cases "i < iter_max")
    case False
    then show ?thesis by (subst q_episodes_with.simps) simp
  next
    case True
    obtain s e1 where r: "env_reset env (rs_env st) = (s, e1)"
      by (cases "env_reset env (rs_env st)")
    from "1.prems"(3) have "fst (env_reset env (rs_env st)) < length (rs_q_table st)" by blast
    with r have s: "s < length (rs_q_table (st\<lparr>rs_env := e1\<rparr>))" by simp
    from "1.prems"(2)
    have st: "\<forall>c a. fst (fst (env_step env c a)) < length (rs_q_table (st\<lparr>rs_env := e1\<rparr>))"
      by simp
    from q_steps_with_total [OF "1.prems"(1) st s]
    obtain st1 where
      q: "q_steps_with pick fadd env alpha gamma eps t_max 0 s fzero (st\<lparr>rs_env := e1\<rparr>) = Inr st1"
      by blast
    let ?next = "if i mod 100 = 0
        then st1\<lparr>rs_out := rs_out st1 @ [Progress (i + 1) (last_100 (rs_reward_list st1))]\<rparr>
        else st1"
    from q_steps_with_table [OF q] have t: "rs_q_table ?next = rs_q_table st" by simp
    from "1.prems"(2,3) t
    have "\<forall>c a. fst (fst (env_step env c a)) < length (rs_q_table ?next)"
      and "\<forall>c. fst (env_reset env c) < length (rs_q_table ?next)"
      by simp_all
    from "1.IH" [OF True r [symmetric] q "1.prems"(1) this]
    obtain st' where "q_episodes_with pick fzero fadd env alpha gamma eps iter_max t_max (i + 1)
        ?next = Inr st'"
      by blast
    with True r q show ?thesis by (subst q_episodes_with.simps) simp
  qed
qed

lemma counted_states:
  "fst (fst (env_step (counted env) c a)) = fst (fst (env_step env (fst c) a))"
  "fst (env_reset (counted env) c) = fst (env_reset env (fst c))"
  "observation_n (counted env) = observation_n env"
  by (simp_all add: counted_def case_prod_beta)

text \<open>
  C4 (amended). In \<^verbatim>\<open>q_learning\<close> an episode that returns has taken at most
  \<open>t_max\<close> steps and a run that returns at most \<open>iter_max \<cdot> t_max\<close>, whatever the
  environment and the action chooser do; on an environment that never reports done they
  are exactly \<open>t_max\<close> and \<open>iter_max \<cdot> t_max\<close>, and the run does return where the
  chooser always yields an action and the environment keeps its states below its state
  count. \<^verbatim>\<open>evaluate_policy\<close> has no step cap: its loop ends only when the environment
  reports done (or a policy lookup fails), so on an environment that never reports done,
  under a policy that covers every state the environment shows, it does not return.
\<close>

theorem step_caps:
  "(q_steps_with pick fadd (counted env) alpha gamma eps t_max 0 s fzero st = Inr st' \<longrightarrow>
      snd (rs_env st') \<le> snd (rs_env st) + t_max \<and>
      ((\<forall>e a. \<not> snd (snd (fst (env_step env e a)))) \<longrightarrow>
         snd (rs_env st') = snd (rs_env st) + t_max)) \<and>
   (q_learning_run_with pick fzero fadd (counted env) (e, 0) rng alpha gamma eps iter_max t_max =
      Inr st'' \<longrightarrow>
      snd (rs_env st'') \<le> iter_max * t_max \<and>
      ((\<forall>e a. \<not> snd (snd (fst (env_step env e a)))) \<longrightarrow>
         snd (rs_env st'') = iter_max * t_max)) \<and>
   ((\<forall>rng q eps' n. \<exists>a rng'. pick rng q eps' n = (Inr a, rng')) \<and>
    (\<forall>e a. fst (fst (env_step env e a)) < observation_n env) \<and>
    (\<forall>e. fst (env_reset env e) < observation_n env) \<longrightarrow>
      (\<exists>st3. q_learning_run_with pick fzero fadd (counted env) (e, 0) rng alpha gamma eps
                iter_max t_max = Inr st3)) \<and>
   ((\<forall>e a. \<not> snd (snd (fst (env_step env e a)))) \<and>
    (\<forall>e a. fst (fst (env_step env e a)) < length policy) \<and>
    fst (env_reset env e0) < length policy \<longrightarrow>
      evaluate_policy fzero fadd env e0 policy rnd = None)"
proof (intro conjI impI)
  have cs: "\<forall>c a. snd (snd (env_step (counted env) c a)) = Suc (snd c)"
    by (simp add: counted_step)
  have cr: "\<forall>c. snd (snd (env_reset (counted env) c)) = snd c"
    by (simp add: counted_reset)
  have cd: "\<forall>c a. \<not> snd (snd (fst (env_step (counted env) c a)))"
    if "\<forall>e a. \<not> snd (snd (fst (env_step env e a)))"
    using that by (simp add: counted_done)
  let ?init = "\<lparr>rs_q_table = replicate (observation_n (counted env)) (replicate (action_n (counted env)) 0),
                rs_reward_list = [], rs_out = [], rs_env = (e, 0::nat), rs_rng = rng\<rparr>"
  {
    assume run: "q_steps_with pick fadd (counted env) alpha gamma eps t_max 0 s fzero st = Inr st'"
    from q_steps_with_count_le [OF run cs]
    show "snd (rs_env st') \<le> snd (rs_env st) + t_max" by simp
    assume never: "\<forall>e a. \<not> snd (snd (fst (env_step env e a)))"
    from q_steps_with_count_eq [OF run cs cd [OF never]]
    show "snd (rs_env st') = snd (rs_env st) + t_max" by simp
  }
  {
    assume "q_learning_run_with pick fzero fadd (counted env) (e, 0) rng alpha gamma eps iter_max t_max =
      Inr st''"
    then have run: "q_episodes_with pick fzero fadd (counted env) alpha gamma eps iter_max t_max 0 ?init =
      Inr st''"
      by (simp add: q_learning_run_with_def)
    from q_episodes_with_count_le [OF run cs cr]
    show "snd (rs_env st'') \<le> iter_max * t_max" by simp
    assume never: "\<forall>e a. \<not> snd (snd (fst (env_step env e a)))"
    from q_episodes_with_count_eq [OF run cs cr cd [OF never]]
    show "snd (rs_env st'') = iter_max * t_max" by simp
  }
  {
    assume h: "(\<forall>rng q eps' n. \<exists>a rng'. pick rng q eps' n = (Inr a, rng')) \<and>
      (\<forall>e a. fst (fst (env_step env e a)) < observation_n env) \<and>
      (\<forall>e. fst (env_reset env e) < observation_n env)"
    then have p: "\<forall>rng q eps' n. \<exists>a rng'. pick rng q eps' n = (Inr a, rng')" by blast
    from h have "\<forall>c a. fst (fst (env_step (counted env) c a)) < length (rs_q_table ?init)"
      and "\<forall>c. fst (env_reset (counted env) c) < length (rs_q_table ?init)"
      by (simp_all add: counted_states)
    from q_episodes_with_total [OF p this]
    show "\<exists>st3. q_learning_run_with pick fzero fadd (counted env) (e, 0) rng alpha gamma eps
                iter_max t_max = Inr st3"
      by (simp add: q_learning_run_with_def)
  }
  {
    assume "(\<forall>e a. \<not> snd (snd (fst (env_step env e a)))) \<and>
      (\<forall>e a. fst (fst (env_step env e a)) < length policy) \<and>
      fst (env_reset env e0) < length policy"
    then show "evaluate_policy fzero fadd env e0 policy rnd = None"
      by (simp add: evaluate_policy_unfold evaluate_loop_diverges)
  }
qed

text \<open>
  The idle environment, which never reports done, with its steps counted: an episode of
  the scripted chooser under the cap 2, a run of two such episodes, and an evaluation of
  the policy \<open>[0]\<close>.
\<close>

lemma counted_idle_episode:
  "q_steps_with scripted (+) (counted idle_env) alpha gamma eps 2 0 0 0
     \<lparr>rs_q_table = [[0]], rs_reward_list = hist, rs_out = out, rs_env = (c, n), rs_rng = []\<rparr> =
   Inr \<lparr>rs_q_table = [[0]], rs_reward_list = hist, rs_out = out, rs_env = (c + 2, n + 2),
        rs_rng = []\<rparr>"
  apply (subst q_steps_with.simps)
  apply (simp add: idle_env_def counted_def)
  apply (subst q_steps_with.simps)
  apply simp
  apply (subst q_steps_with.simps)
  apply simp
  done

lemma counted_idle_run:
  "q_learning_run_with scripted 0 (+) (counted idle_env) (0, 0) [] (1/2) 1 0 2 2 =
     Inr \<lparr>rs_q_table = [[0]], rs_reward_list = [], rs_out = [Progress 1 []],
          rs_env = (2, 4), rs_rng = []\<rparr>"
proof -
  have n: "observation_n (counted idle_env) = 1" "action_n (counted idle_env) = 1"
    "env_reset (counted idle_env) (c, k) = (0, (0, k))" for c k
    by (simp_all add: idle_env_def counted_def)
  show ?thesis
    unfolding q_learning_run_with_def
    apply (subst q_episodes_with.simps)
    apply (simp add: n counted_idle_episode last_100_def)
    apply (subst q_episodes_with.simps)
    apply (simp add: n counted_idle_episode)
    apply (subst q_episodes_with.simps)
    apply simp
    done
qed

theorem step_caps_witness:
  "(\<forall>e a. \<not> snd (snd (fst (env_step idle_env e a)))) \<and>
   q_steps_with scripted (+) (counted idle_env) (1/2) 1 0 2 0 0 0
     \<lparr>rs_q_table = [[0]], rs_reward_list = [], rs_out = [], rs_env = (0, 0), rs_rng = []\<rparr> =
     Inr \<lparr>rs_q_table = [[0]], rs_reward_list = [], rs_out = [], rs_env = (2, 2), rs_rng = []\<rparr> \<and>
   snd (2 :: nat, 2 :: nat) = snd (0 :: nat, 0 :: nat) + 2 \<and>
   (\<forall>rng q eps' n. \<exists>a rng'. scripted rng q eps' n = (Inr a, rng')) \<and>
   (\<forall>e a. fst (fst (env_step idle_env e a)) < observation_n idle_env) \<and>
   (\<forall>e. fst (env_reset idle_env e) < observation_n idle_env) \<and>
   q_learning_run_with scripted 0 (+) (counted idle_env) (0, 0) [] (1/2) 1 0 2 2 =
     Inr \<lparr>rs_q_table = [[0]], rs_reward_list = [], rs_out = [Progress 1 []],
          rs_env = (2, 4), rs_rng = []\<rparr> \<and>
   snd (2 :: nat, 4 :: nat) = 2 * 2 \<and>
   (\<forall>e a. fst (fst (env_step idle_env e a)) < length [0::nat]) \<and>
   fst (env_reset idle_env 0) < length [0::nat] \<and>
   evaluate_policy 0 (+) idle_env 0 [0] True = None"
proof -
  have never: "\<forall>e a. \<not> snd (snd (fst (env_step idle_env e a)))" by (simp add: idle_env_def)
  have cover: "\<forall>e a. fst (fst (env_step idle_env e a)) < length [0::nat]"
    "fst (env_reset idle_env 0) < length [0::nat]"
    by (simp_all add: idle_env_def)
  have range: "\<forall>e a. fst (fst (env_step idle_env e a)) < observation_n idle_env"
    "\<forall>e. fst (env_reset idle_env e) < observation_n idle_env"
    by (simp_all add: idle_env_def)
  have ep: "q_steps_with scripted (+) (counted idle_env) (1/2) 1 0 2 0 0 0
     \<lparr>rs_q_table = [[0]], rs_reward_list = [], rs_out = [], rs_env = (0, 0), rs_rng = []\<rparr> =
     Inr \<lparr>rs_q_table = [[0]], rs_reward_list = [], rs_out = [], rs_env = (2, 2), rs_rng = []\<rparr>"
    using counted_idle_episode [of "1/2" 1 0 "[]" "[]" 0 0] by simp
  from step_caps [where pick = scripted and fadd = "(+)" and fzero = 0 and env = idle_env
      and alpha = "1/2" and gamma = 1 and eps = 0 and t_max = 2 and iter_max = 2 and s = 0
      and st = "\<lparr>rs_q_table = [[0]], rs_reward_list = [], rs_out = [], rs_env = (0, 0), rs_rng = []\<rparr>"
      and st' = "\<lparr>rs_q_table = [[0]], rs_reward_list = [], rs_out = [], rs_env = (2, 2), rs_rng = []\<rparr>"
      and e = 0 and rng = "[]"
      and st'' = "\<lparr>rs_q_table = [[0]], rs_reward_list = [], rs_out = [Progress 1 []],
          rs_env = (2, 4), rs_rng = []\<rparr>"
      and policy = "[0]" and ?e0.0 = 0 and rnd = True]
    never cover range scripted_total ep counted_idle_run
  show ?thesis by simp
qed

text \<open>
  C4 as stated fails: on the idle environment, which never reports done,
  \<^verbatim>\<open>evaluate_policy\<close> does not return.
\<close>

theorem evaluate_policy_idle_diverges:
  "evaluate_policy 0 (+) idle_env 0 [0] False = None"
proof -
  have "evaluate_loop (+) idle_env [0] False 0 0 0 = None"
    by (rule evaluate_loop_diverges) (simp_all add: idle_env_def)
  moreover have "env_reset idle_env 0 = (0, 0)" by (simp add: idle_env_def)
  ultimately show ?thesis by (simp add: evaluate_policy_def)
qed

subsection \<open>No check of the configuration\<close>








end
